theory Spec2Isabelle
  imports Main "HOL-Library.Log_Nat"
begin

section \<open>Python numbers\<close>

text \<open>
  Python's \<open>int\<close> is unbounded and is modelled by \<^typ>\<open>int\<close>. Python's \<open>float\<close> is an
  IEEE 754 binary64 number. A finite float is modelled by the rational number it denotes,
  and every float operation is the exact operation followed by \<open>fl\<close>, rounding to the
  nearest binary64 value, ties to even (53 significant bits, least exponent \<open>-1074\<close>).
  Infinities, NaN and the sign of zero are not represented: the model is exact as long as
  magnitudes stay below \<open>2 ^ 1024\<close>, which holds for the page sizes and the image
  dimensions (C ints, as the imaging library reports them) that the worker handles.
\<close>

definition ilog2 :: "rat \<Rightarrow> int" where
  \<comment> \<open>for \<open>x > 0\<close>: the exponent \<open>k\<close> with \<open>2 ^ k \<le> x < 2 ^ (k + 1)\<close>\<close>
  "ilog2 x = (case quotient_of x of (a, b) \<Rightarrow>
     (let d = bitlen a - bitlen b in if 2 powi d \<le> x then d else d - 1))"

definition rne :: "rat \<Rightarrow> int" where
  \<comment> \<open>round to the nearest integer, ties to the even one\<close>
  "rne y = (let f = \<lfloor>y\<rfloor>; r = y - of_int f in
     if r < 1 / 2 then f else if 1 / 2 < r then f + 1 else if even f then f else f + 1)"

definition fexp :: "rat \<Rightarrow> int" where
  \<comment> \<open>the exponent of the last place of the binary64 numbers around \<open>x\<close>\<close>
  "fexp x = max (ilog2 \<bar>x\<bar> - 52) (- 1074)"

definition fl :: "rat \<Rightarrow> rat" where
  "fl x = (if x = 0 then 0 else of_int (rne (x / 2 powi fexp x)) * 2 powi fexp x)"

datatype py_exn =
    ZeroDivisionError string
  | LibraryError string

fun str_exn :: "py_exn \<Rightarrow> string" where
  "str_exn (ZeroDivisionError m) = m"
| "str_exn (LibraryError m) = m"

definition float_of_int :: "int \<Rightarrow> rat" where
  \<comment> \<open>the implicit conversion of an \<open>int\<close> operand of a float operation\<close>
  "float_of_int i = fl (of_int i)"

definition float_div :: "rat \<Rightarrow> rat \<Rightarrow> py_exn + rat" where
  "float_div a b =
     (if b = 0 then Inl (ZeroDivisionError ''float division by zero'') else Inr (fl (a / b)))"

definition int_truediv :: "int \<Rightarrow> int \<Rightarrow> py_exn + rat" where
  \<comment> \<open>\<open>a / b\<close> on two ints: the correctly rounded quotient\<close>
  "int_truediv a b =
     (if b = 0 then Inl (ZeroDivisionError ''division by zero'')
      else Inr (fl (of_int a / of_int b)))"

definition py_int :: "rat \<Rightarrow> int" where
  \<comment> \<open>\<open>int(x)\<close> on a float: truncation toward zero\<close>
  "py_int x = (if 0 \<le> x then \<lfloor>x\<rfloor> else \<lceil>x\<rceil>)"

definition basename :: "string \<Rightarrow> string" where
  \<comment> \<open>\<open>os.path.basename\<close> (POSIX): what follows the last slash\<close>
  "basename p = rev (takeWhile (\<lambda>c. c \<noteq> CHR ''/'') (rev p))"

section \<open>Page sizes of the PDF library\<close>

text \<open>
  The page size \<open>A4\<close> is imported from the PDF library, which computes it as
  \<open>inch = 72.0\<close>, \<open>cm = inch / 2.54\<close>, \<open>mm = cm * 0.1\<close>, \<open>A4 = (210 * mm, 297 * mm)\<close>.
\<close>

definition inch :: rat where
  "inch = 72"

definition cm :: rat where
  "cm = fl (inch / fl (254 / 100))"

definition mm :: rat where
  "mm = fl (cm * fl (1 / 10))"

definition a4_width :: rat where
  "a4_width = fl (210 * mm)"

definition a4_height :: rat where
  "a4_height = fl (297 * mm)"

section \<open>The layout of one image (\<open>PDFWorker.run\<close>, lines 134 to 149)\<close>

record layout =
  page_width :: rat
  page_height :: rat
  ratio :: rat
  new_width :: rat
  new_height :: rat
  x_pos :: rat
  y_pos :: rat

text \<open>
  The fields \<open>x_pos\<close> and \<open>y_pos\<close> are the source's variables \<open>x\<close> and \<open>y\<close>.
  The definition is the body of the \<open>with\<close> block after \<open>width, height = img.size\<close>. With \<open>use_a4\<close> the
  page is A4 and the two quotients are float divisions, which raise on a zero divisor. Without
  it the page is the image, \<open>ratio\<close> is the int \<open>1\<close>, the products and the difference are int
  arithmetic and only the final division by \<open>2\<close> yields a float. The call
  \<open>c.setPageSize\<close> of that branch acts on the canvas and is part of \<open>image_body\<close> below.
\<close>

definition compute_layout :: "bool \<Rightarrow> int \<Rightarrow> int \<Rightarrow> py_exn + layout" where
  "compute_layout use_a4 width height =
     (if \<not> use_a4 then
        Inr \<lparr>page_width = of_int width, page_height = of_int height, ratio = 1,
             new_width = of_int (width * 1), new_height = of_int (height * 1),
             x_pos = fl (of_int (width - width * 1) / 2),
             y_pos = fl (of_int (height - height * 1) / 2)\<rparr>
      else
        (case float_div a4_width (float_of_int width) of
           Inl e \<Rightarrow> Inl e
         | Inr rw \<Rightarrow>
            (case float_div a4_height (float_of_int height) of
               Inl e \<Rightarrow> Inl e
             | Inr rh \<Rightarrow>
                (let r = min rw rh;
                     nw = fl (float_of_int width * r);
                     nh = fl (float_of_int height * r)
                 in Inr \<lparr>page_width = a4_width, page_height = a4_height, ratio = r,
                         new_width = nw, new_height = nh,
                         x_pos = fl (fl (a4_width - nw) / 2),
                         y_pos = fl (fl (a4_height - nh) / 2)\<rparr>))))"

section \<open>The canvas of the PDF library\<close>

text \<open>
  The worker uses the canvas through six calls. The canvas collects the drawing operators
  of the page under construction in \<open>code\<close>; \<open>showPage\<close> closes that page with the
  current page size and starts an empty one; \<open>save\<close> first executes a \<open>showPage\<close>
  if there is current data and then writes the file. A new canvas has the library's default
  page size, which is A4, also when the page size is not passed. Creating the canvas and the
  calls that only record an operator or a page work in memory and do not raise; the two calls
  that read or write a file may: \<open>drawImage\<close>, which reads the image before it records
  anything, and \<open>save\<close>.
\<close>

datatype pdf_op =
    SetFillColorRGB rat rat rat
  | Rect rat rat rat rat
  | DrawImage string rat rat rat rat

type_synonym page = "(rat \<times> rat) \<times> pdf_op list"

record canvas =
  pagesize :: "rat \<times> rat"
  code :: "pdf_op list"
  pages :: "page list"

definition new_canvas :: canvas where
  "new_canvas = \<lparr>pagesize = (a4_width, a4_height), code = [], pages = []\<rparr>"

definition setPageSize :: "canvas \<Rightarrow> rat \<times> rat \<Rightarrow> canvas" where
  "setPageSize c sz = c\<lparr>pagesize := sz\<rparr>"

definition setFillColorRGB :: "canvas \<Rightarrow> rat \<times> rat \<times> rat \<Rightarrow> canvas" where
  "setFillColorRGB c rgb =
     (case rgb of (r, g, b) \<Rightarrow> c\<lparr>code := code c @ [SetFillColorRGB r g b]\<rparr>)"

definition rect :: "canvas \<Rightarrow> rat \<Rightarrow> rat \<Rightarrow> rat \<Rightarrow> rat \<Rightarrow> canvas" where
  "rect c px py w h = c\<lparr>code := code c @ [Rect px py w h]\<rparr>"

definition drawImage :: "canvas \<Rightarrow> string \<Rightarrow> rat \<Rightarrow> rat \<Rightarrow> rat \<Rightarrow> rat \<Rightarrow> canvas" where
  "drawImage c p px py w h = c\<lparr>code := code c @ [DrawImage p px py w h]\<rparr>"

definition showPage :: "canvas \<Rightarrow> canvas" where
  "showPage c = c\<lparr>pages := pages c @ [(pagesize c, code c)], code := []\<rparr>"

definition save :: "canvas \<Rightarrow> py_exn option \<Rightarrow> canvas \<times> py_exn option" where
  \<comment> \<open>the second argument is the exception that writing the file raises, if any\<close>
  "save c wr = ((if code c \<noteq> [] then showPage c else c), wr)"

section \<open>The worker (\<open>PDFWorker\<close>)\<close>

text \<open>
  An entry of \<open>images\<close> is a path. The model keeps with each path what the two libraries
  answer for it in the run at hand: \<open>pil_size\<close> is the value of \<open>img.size\<close> after
  \<open>Image.open(img_path)\<close>, or the exception that opening raises; \<open>rl_draw\<close> is the
  exception that \<open>c.drawImage(img_path, ...)\<close> raises, if any.
\<close>

record image_file =
  img_path :: string
  pil_size :: "py_exn + int \<times> int"
  rl_draw :: "py_exn option"

record worker =
  images :: "image_file list"
  output_file :: string
  use_a4 :: bool
  bg_color :: "rat \<times> rat \<times> rat"

datatype signal =
    Progress int
  | Finished "string list"

record wstate =
  canv :: canvas
  failed_images :: "string list"
  emitted :: "signal list"

record outcome =
  signals :: "signal list"
  final_canvas :: canvas
  document :: "page list option"

definition image_body :: "worker \<Rightarrow> canvas \<Rightarrow> image_file \<Rightarrow> canvas \<times> py_exn option" where
  \<comment> \<open>the inner \<open>try\<close> block: the canvas it leaves and the exception it raises, if any\<close>
  "image_body wk c img =
     (case pil_size img of
        Inl e \<Rightarrow> (c, Some e)
      | Inr (width, height) \<Rightarrow>
         (let c1 = (if \<not> use_a4 wk then setPageSize c (of_int width, of_int height) else c)
          in case compute_layout (use_a4 wk) width height of
               Inl e \<Rightarrow> (c1, Some e)
             | Inr l \<Rightarrow>
                (let c2 = rect (setFillColorRGB c1 (bg_color wk)) 0 0 (page_width l) (page_height l)
                 in case rl_draw img of
                      Some e \<Rightarrow> (c2, Some e)
                    | None \<Rightarrow>
                       (showPage (drawImage c2 (img_path img)
                                   (x_pos l) (y_pos l) (new_width l) (new_height l)),
                        None))))"

definition failure_entry :: "image_file \<Rightarrow> py_exn \<Rightarrow> string" where
  "failure_entry img e = basename (img_path img) @ '' (Error: '' @ str_exn e @ '')''"

definition percent :: "int \<Rightarrow> int \<Rightarrow> py_exn + int" where
  \<comment> \<open>\<open>int(idx / total * 100)\<close>; \<open>ntotal\<close> is the source's \<open>total\<close>\<close>
  "percent idx ntotal =
     (case int_truediv idx ntotal of
        Inl e \<Rightarrow> Inl e
      | Inr q \<Rightarrow> Inr (py_int (fl (q * float_of_int 100))))"

fun for_loop :: "worker \<Rightarrow> nat \<Rightarrow> nat \<Rightarrow> image_file list \<Rightarrow> wstate \<Rightarrow> wstate \<times> py_exn option" where
  "for_loop wk ntotal idx [] s = (s, None)"
| "for_loop wk ntotal idx (img # imgs) s =
     (case image_body wk (canv s) img of
        (c, r) \<Rightarrow>
          (let s1 = s\<lparr>canv := c,
                       failed_images :=
                         (case r of None \<Rightarrow> failed_images s
                          | Some e \<Rightarrow> failed_images s @ [failure_entry img e])\<rparr>
           in case percent (int idx) (int ntotal) of
                Inl e \<Rightarrow> (s1, Some e)
              | Inr n \<Rightarrow> for_loop wk ntotal (Suc idx) imgs (s1\<lparr>emitted := emitted s1 @ [Progress n]\<rparr>)))"

definition run :: "worker \<Rightarrow> py_exn option \<Rightarrow> outcome" where
  \<comment> \<open>the second argument is the exception that writing \<open>output_file\<close> raises, if any\<close>
  "run wk wr =
     (case for_loop wk (length (images wk)) 1 (images wk)
             \<lparr>canv = new_canvas, failed_images = [], emitted = []\<rparr> of
        (s, r1) \<Rightarrow>
          (case (case r1 of Some e \<Rightarrow> (canv s, Some e) | None \<Rightarrow> save (canv s) wr) of
             (c, r2) \<Rightarrow>
               \<lparr>signals = emitted s @
                   [Finished (case r2 of None \<Rightarrow> failed_images s
                              | Some e \<Rightarrow> failed_images s @ [''PDF creation failed: '' @ str_exn e])],
                final_canvas = c,
                document = (case r2 of None \<Rightarrow> Some (pages c) | Some e \<Rightarrow> None)\<rparr>))"

section \<open>Observations on a run\<close>

text \<open>
  What the claims speak about: the progress values among the emitted signals, the exception
  an entry of the list ends with, the report entries of the loop, the images a page shows
  and the background the worker paints for a layout.
\<close>

fun progress_values :: "signal list \<Rightarrow> int list" where
  "progress_values [] = []"
| "progress_values (Progress n # ss) = n # progress_values ss"
| "progress_values (Finished r # ss) = progress_values ss"

definition image_error :: "worker \<Rightarrow> image_file \<Rightarrow> py_exn option" where
  "image_error wk img = snd (image_body wk new_canvas img)"

definition entries :: "worker \<Rightarrow> image_file list \<Rightarrow> string list" where
  \<comment> \<open>one report entry for each entry of the list that ends with an exception, in list order\<close>
  "entries wk imgs =
     concat (map (\<lambda>img. case image_error wk img of None \<Rightarrow> [] | Some e \<Rightarrow> [failure_entry img e])
               imgs)"

definition failure_report :: "worker \<Rightarrow> string list" where
  "failure_report wk = entries wk (images wk)"

fun drawn_images :: "pdf_op list \<Rightarrow> string list" where
  "drawn_images [] = []"
| "drawn_images (DrawImage p px py w h # ops) = p # drawn_images ops"
| "drawn_images (SetFillColorRGB r g b # ops) = drawn_images ops"
| "drawn_images (Rect px py w h # ops) = drawn_images ops"

definition background :: "worker \<Rightarrow> layout \<Rightarrow> pdf_op list" where
  "background wk l =
     (case bg_color wk of (r, g, b) \<Rightarrow>
        [SetFillColorRGB r g b, Rect 0 0 (page_width l) (page_height l)])"

definition shown_images :: "page list \<Rightarrow> string list list" where
  \<comment> \<open>for each page that shows an image, in page order, the paths of the images on it\<close>
  "shown_images pgs = filter (\<lambda>ps. ps \<noteq> []) (map (\<lambda>pg. drawn_images (snd pg)) pgs)"

definition trunc_percent :: "nat \<Rightarrow> nat \<Rightarrow> int" where
  \<comment> \<open>the value of \<open>int(idx / total * 100)\<close> for a total that is not zero\<close>
  "trunc_percent i n = py_int (fl (fl (of_nat i / of_nat n) * 100))"

definition loop_canvas :: "worker \<Rightarrow> canvas \<Rightarrow> image_file list \<Rightarrow> canvas" where
  \<comment> \<open>the canvas after the inner \<open>try\<close> block has run on each entry in turn\<close>
  "loop_canvas wk c imgs = foldl (\<lambda>c img. fst (image_body wk c img)) c imgs"

text \<open>
  The spec's formula for the progress value, \<open>round(index / total * 100)\<close>, in the same
  float arithmetic; Python's \<open>round\<close> rounds to the nearest integer, ties to even.
\<close>

definition spec_percent :: "int \<Rightarrow> int \<Rightarrow> int" where
  "spec_percent idx ntotal = rne (fl (fl (of_int idx / of_int ntotal) * 100))"

section \<open>Example inputs\<close>

text \<open>
  An image that opens and draws, a file that the imaging library does not open, and an image
  that opens but that the PDF library fails to draw; a worker for a list of such entries.
\<close>

definition readable_image :: "string \<Rightarrow> int \<Rightarrow> int \<Rightarrow> image_file" where
  "readable_image p w h = \<lparr>img_path = p, pil_size = Inr (w, h), rl_draw = None\<rparr>"

definition unreadable_image :: "string \<Rightarrow> image_file" where
  "unreadable_image p =
     \<lparr>img_path = p, pil_size = Inl (LibraryError ''cannot identify image file''), rl_draw = None\<rparr>"

definition undrawable_image :: "string \<Rightarrow> int \<Rightarrow> int \<Rightarrow> image_file" where
  "undrawable_image p w h =
     \<lparr>img_path = p, pil_size = Inr (w, h), rl_draw = Some (LibraryError ''broken data stream'')\<rparr>"

definition example_worker :: "image_file list \<Rightarrow> bool \<Rightarrow> worker" where
  "example_worker imgs a4 =
     \<lparr>images = imgs, output_file = ''out.pdf'', use_a4 = a4, bg_color = (1, 1, 1)\<rparr>"

section \<open>Properties of the rounding\<close>

text \<open>
  Powers of two with an integer exponent, the bounds of \<open>ilog2\<close>, and the three facts
  about \<open>fl\<close> that the claims need: it is monotone, its relative error on the normal
  range is at most \<open>2 ^ -53\<close>, and it leaves integers below \<open>2 ^ 53\<close> unchanged.
\<close>

lemma p2_pos: "(0::rat) < 2 powi e"
  by simp

lemma p2_add: "(2::rat) powi (a + b) = 2 powi a * 2 powi b"
  by (rule power_int_add) simp

lemma p2_le: "a \<le> b \<Longrightarrow> (2::rat) powi a \<le> 2 powi b"
  by (rule power_int_increasing) simp_all

lemma p2_less: "a < b \<Longrightarrow> (2::rat) powi a < 2 powi b"
  by (rule power_int_strict_increasing) simp_all

lemma p2_nat: "(2::rat) powi (int n) = of_int (2 ^ n)"
  by simp

lemma bitlen_pow_bounds:
  assumes "0 < a"
  shows "\<exists>l. bitlen a = int l + 1 \<and> (2::rat) powi (int l) \<le> of_int a \<and> of_int a < (2::rat) powi (int l + 1)"
proof -
  define l where "l = nat (bitlen a - 1)"
  have "bitlen a \<noteq> 0" using assms by (simp add: bitlen_eq_zero_iff)
  then have bl: "bitlen a = int l + 1" using bitlen_nonneg[of a] by (simp add: l_def)
  have nl: "nat (bitlen a) = l + 1" by (simp add: bl)
  have b1: "(2::int) ^ l \<le> a" and b2: "a < 2 ^ (l + 1)"
    using bitlen_bounds[OF assms] by (simp_all only: l_def[symmetric] nl)
  have "(of_int ((2::int) ^ l) :: rat) \<le> of_int a" using b1 by (simp only: of_int_le_iff)
  then have r1: "(2::rat) powi (int l) \<le> of_int a" by (simp only: p2_nat)
  have "(of_int a :: rat) < of_int ((2::int) ^ (l + 1))" using b2 by (simp only: of_int_less_iff)
  then have "(of_int a :: rat) < 2 powi (int (l + 1))" by (simp only: p2_nat)
  then have r2: "(of_int a :: rat) < 2 powi (int l + 1)" by (simp add: add.commute)
  show ?thesis using bl r1 r2 by blast
qed

lemma ilog2_bounds:
  assumes "0 < x"
  shows "2 powi (ilog2 x) \<le> x" and "x < 2 powi (ilog2 x + 1)"
proof -
  obtain a b where q: "quotient_of x = (a, b)" by (cases "quotient_of x")
  have b: "0 < b" using q quotient_of_denom_pos by blast
  have xq: "x = of_int a / of_int b" using q by (rule quotient_of_div)
  have a: "0 < a" using assms b xq by (simp add: zero_less_divide_iff)
  obtain la where bla: "bitlen a = int la + 1" and ra1: "(2::rat) powi (int la) \<le> of_int a"
    and ra2: "of_int a < (2::rat) powi (int la + 1)"
    using bitlen_pow_bounds[OF a] by blast
  obtain lb where blb: "bitlen b = int lb + 1" and rb1: "(2::rat) powi (int lb) \<le> of_int b"
    and rb2: "of_int b < (2::rat) powi (int lb + 1)"
    using bitlen_pow_bounds[OF b] by blast
  define d where "d = int la - int lb"
  have dd: "bitlen a - bitlen b = d" by (simp add: bla blb d_def)
  have bpos: "(0::rat) < of_int b" using b by simp
  have lo: "2 powi (d - 1) < x"
  proof -
    have e: "(d - 1) + (int lb + 1) = int la" by (simp add: d_def)
    have "(2::rat) powi (d - 1) * of_int b < 2 powi (d - 1) * 2 powi (int lb + 1)"
      using rb2 p2_pos[of "d - 1"] by (simp only: mult_less_cancel_left_pos)
    also have "\<dots> = 2 powi (int la)" by (simp only: p2_add[symmetric] e)
    finally have "(2::rat) powi (d - 1) * of_int b < of_int a" using ra1 by linarith
    then have "(2::rat) powi (d - 1) < of_int a / of_int b"
      using bpos by (simp only: pos_less_divide_eq)
    then show ?thesis by (simp only: xq)
  qed
  have hi: "x < 2 powi (d + 1)"
  proof -
    have e: "(d + 1) + int lb = int la + 1" by (simp add: d_def)
    have "(2::rat) powi (d + 1) * 2 powi (int lb) \<le> 2 powi (d + 1) * of_int b"
      using rb1 p2_pos[of "d + 1"] by (simp only: mult_le_cancel_left_pos)
    moreover have "(2::rat) powi (d + 1) * 2 powi (int lb) = 2 powi (int la + 1)"
      by (simp only: p2_add[symmetric] e)
    ultimately have "of_int a < (2::rat) powi (d + 1) * of_int b" using ra2 by linarith
    then have "of_int a / of_int b < (2::rat) powi (d + 1)"
      using bpos by (simp only: pos_divide_less_eq)
    then show ?thesis by (simp only: xq)
  qed
  have il: "ilog2 x = (if 2 powi d \<le> x then d else d - 1)"
    by (simp add: ilog2_def q dd Let_def)
  show "2 powi (ilog2 x) \<le> x"
  proof (cases "2 powi d \<le> x")
    case True
    then show ?thesis by (simp only: il if_True)
  next
    case False
    then show ?thesis using lo by (simp only: il if_False)
  qed
  show "x < 2 powi (ilog2 x + 1)"
  proof (cases "2 powi d \<le> x")
    case True
    then show ?thesis using hi by (simp only: il if_True)
  next
    case False
    then have "x < 2 powi d" by simp
    then have "x < 2 powi (d - 1 + 1)" by simp
    then show ?thesis using False by (simp only: il if_False)
  qed
qed

lemma ilog2_unique:
  assumes "2 powi k \<le> x" and "x < 2 powi (k + 1)"
  shows "ilog2 x = k"
proof -
  have x: "0 < x" using assms(1) p2_pos[of k] by linarith
  have "\<not> ilog2 x < k"
  proof
    assume "ilog2 x < k"
    then have "ilog2 x + 1 \<le> k" by simp
    then have "(2::rat) powi (ilog2 x + 1) \<le> 2 powi k" by (rule p2_le)
    then show False using ilog2_bounds(2)[OF x] assms(1) by linarith
  qed
  moreover have "\<not> k < ilog2 x"
  proof
    assume "k < ilog2 x"
    then have "k + 1 \<le> ilog2 x" by simp
    then have "(2::rat) powi (k + 1) \<le> 2 powi (ilog2 x)" by (rule p2_le)
    then show False using ilog2_bounds(1)[OF x] assms(2) by linarith
  qed
  ultimately show ?thesis by linarith
qed

lemma ilog2_mono:
  assumes "0 < x" and "x \<le> y"
  shows "ilog2 x \<le> ilog2 y"
proof (rule ccontr)
  assume "\<not> ilog2 x \<le> ilog2 y"
  then have "ilog2 y + 1 \<le> ilog2 x" by simp
  then have "(2::rat) powi (ilog2 y + 1) \<le> 2 powi (ilog2 x)" by (rule p2_le)
  moreover have "0 < y" using assms by linarith
  ultimately show False using ilog2_bounds(1)[OF assms(1)] ilog2_bounds(2)[of y] assms(2) by linarith
qed

lemma rne_error: "\<bar>of_int (rne y) - y\<bar> \<le> 1 / 2"
proof -
  have "of_int \<lfloor>y\<rfloor> \<le> y" and "y < of_int \<lfloor>y\<rfloor> + 1" by linarith+
  then show ?thesis by (auto simp add: rne_def Let_def)
qed

lemma rne_of_int: "rne (of_int n) = n"
  by (simp add: rne_def)

lemma rne_mono:
  assumes "y \<le> z"
  shows "rne y \<le> rne z"
proof -
  have fy: "of_int \<lfloor>y\<rfloor> \<le> y" "y < of_int \<lfloor>y\<rfloor> + 1" by linarith+
  have fz: "of_int \<lfloor>z\<rfloor> \<le> z" "z < of_int \<lfloor>z\<rfloor> + 1" by linarith+
  have m: "\<lfloor>y\<rfloor> \<le> \<lfloor>z\<rfloor>" using assms by (rule floor_mono)
  have ly: "\<lfloor>y\<rfloor> \<le> rne y" "rne y \<le> \<lfloor>y\<rfloor> + 1" by (auto simp add: rne_def Let_def)
  have lz: "\<lfloor>z\<rfloor> \<le> rne z" "rne z \<le> \<lfloor>z\<rfloor> + 1" by (auto simp add: rne_def Let_def)
  show ?thesis
  proof (cases "\<lfloor>y\<rfloor> = \<lfloor>z\<rfloor>")
    case True
    then show ?thesis using assms by (auto simp add: rne_def Let_def)
  next
    case False
    then have "\<lfloor>y\<rfloor> + 1 \<le> \<lfloor>z\<rfloor>" using m by linarith
    then show ?thesis using ly lz by linarith
  qed
qed

lemma fexp_pos_eq: "0 < x \<Longrightarrow> fexp x = max (ilog2 x - 52) (- 1074)"
  by (simp add: fexp_def)

lemma fexp_mono:
  assumes "0 < x" and "x \<le> y"
  shows "fexp x \<le> fexp y"
proof -
  have "0 < y" using assms by linarith
  then show ?thesis using ilog2_mono[OF assms] assms(1) by (simp add: fexp_pos_eq)
qed

lemma fl_pos_eq: "0 < x \<Longrightarrow> fl x = of_int (rne (x / 2 powi fexp x)) * 2 powi fexp x"
  by (simp add: fl_def)

lemma rne_nonneg: "0 \<le> y \<Longrightarrow> 0 \<le> rne y"
  using rne_mono[of 0 y] rne_of_int[of 0] by simp

lemma fl_nonneg:
  assumes "0 \<le> x"
  shows "0 \<le> fl x"
proof (cases "x = 0")
  case True
  then show ?thesis by (simp add: fl_def)
next
  case False
  then have x: "0 < x" using assms by simp
  have "0 \<le> x / 2 powi fexp x" using x by simp
  then have "0 \<le> rne (x / 2 powi fexp x)" by (rule rne_nonneg)
  then show ?thesis using x by (simp add: fl_pos_eq)
qed

lemma fl_upper:
  assumes "0 < x"
  shows "fl x \<le> 2 powi (fexp x + 53)"
proof -
  let ?e = "fexp x"
  have "ilog2 x + 1 \<le> ?e + 53" using assms by (simp add: fexp_pos_eq)
  then have "(2::rat) powi (ilog2 x + 1) \<le> 2 powi (?e + 53)" by (rule p2_le)
  then have "x \<le> 2 powi (?e + 53)" using ilog2_bounds(2)[OF assms] by linarith
  also have "\<dots> = 2 powi 53 * 2 powi ?e" by (simp only: p2_add mult.commute)
  finally have "x / 2 powi ?e \<le> 2 powi 53" using p2_pos[of ?e] by (simp only: pos_divide_le_eq)
  also have "(2::rat) powi 53 = of_int (2 ^ 53)" by simp
  finally have "rne (x / 2 powi ?e) \<le> 2 ^ 53"
    using rne_mono[of "x / 2 powi ?e" "of_int (2 ^ 53)"] by (simp only: rne_of_int)
  then have "(of_int (rne (x / 2 powi ?e)) :: rat) \<le> of_int (2 ^ 53)" by (simp only: of_int_le_iff)
  then have "(of_int (rne (x / 2 powi ?e)) :: rat) \<le> 2 powi 53" by simp
  then have "of_int (rne (x / 2 powi ?e)) * 2 powi ?e \<le> (2::rat) powi 53 * 2 powi ?e"
    using p2_pos[of ?e] by (simp only: mult_le_cancel_right_pos)
  then show ?thesis using assms by (simp only: fl_pos_eq p2_add mult.commute)
qed

lemma fl_lower:
  assumes "0 < x" and "- 1074 < fexp x"
  shows "2 powi (fexp x + 52) \<le> fl x"
proof -
  let ?e = "fexp x"
  have e: "?e + 52 = ilog2 x" using assms by (simp add: fexp_pos_eq)
  have "(2::rat) powi 52 * 2 powi ?e = 2 powi (?e + 52)" by (simp only: p2_add mult.commute)
  also have "\<dots> \<le> x" using ilog2_bounds(1)[OF assms(1)] by (simp only: e)
  finally have "(2::rat) powi 52 \<le> x / 2 powi ?e" using p2_pos[of ?e] by (simp only: pos_le_divide_eq)
  moreover have "(2::rat) powi 52 = of_int (2 ^ 52)" by simp
  ultimately have "of_int (2 ^ 52) \<le> x / 2 powi ?e" by simp
  then have "2 ^ 52 \<le> rne (x / 2 powi ?e)"
    using rne_mono[of "of_int (2 ^ 52)" "x / 2 powi ?e"] by (simp only: rne_of_int)
  then have "(of_int (2 ^ 52) :: rat) \<le> of_int (rne (x / 2 powi ?e))" by (simp only: of_int_le_iff)
  then have "(2::rat) powi 52 \<le> of_int (rne (x / 2 powi ?e))" by simp
  then have "(2::rat) powi 52 * 2 powi ?e \<le> of_int (rne (x / 2 powi ?e)) * 2 powi ?e"
    using p2_pos[of ?e] by (simp only: mult_le_cancel_right_pos)
  then show ?thesis using assms(1) by (simp only: fl_pos_eq p2_add mult.commute)
qed

lemma fl_mono:
  assumes "0 \<le> x" and "x \<le> y"
  shows "fl x \<le> fl y"
proof (cases "x = 0")
  case True
  then show ?thesis using fl_nonneg[of y] assms by (simp add: fl_def)
next
  case False
  then have x: "0 < x" using assms by simp
  then have y: "0 < y" using assms by linarith
  have le: "fexp x \<le> fexp y" using x assms(2) by (rule fexp_mono)
  show ?thesis
  proof (cases "fexp x = fexp y")
    case True
    have "x / 2 powi fexp y \<le> y / 2 powi fexp y"
      using assms(2) p2_pos[of "fexp y"] by (simp add: divide_right_mono)
    then have "rne (x / 2 powi fexp y) \<le> rne (y / 2 powi fexp y)" by (rule rne_mono)
    then have "(of_int (rne (x / 2 powi fexp y)) :: rat) \<le> of_int (rne (y / 2 powi fexp y))"
      by (simp only: of_int_le_iff)
    then have "(of_int (rne (x / 2 powi fexp y)) :: rat) * 2 powi fexp y
        \<le> of_int (rne (y / 2 powi fexp y)) * 2 powi fexp y"
      using p2_pos[of "fexp y"] by (simp only: mult_le_cancel_right_pos)
    then show ?thesis using x y True by (simp only: fl_pos_eq)
  next
    case False
    then have lt: "fexp x + 53 \<le> fexp y + 52" using le by simp
    have "- 1074 \<le> fexp x" by (simp add: fexp_def)
    then have "- 1074 < fexp y" using lt by simp
    then have "2 powi (fexp y + 52) \<le> fl y" using y by (simp only: fl_lower)
    moreover have "fl x \<le> 2 powi (fexp x + 53)" using x by (rule fl_upper)
    moreover have "(2::rat) powi (fexp x + 53) \<le> 2 powi (fexp y + 52)" using lt by (rule p2_le)
    ultimately show ?thesis by linarith
  qed
qed

lemma fl_error:
  assumes "2 powi (- 1022) \<le> x"
  shows "\<bar>fl x - x\<bar> \<le> x / 2 ^ 53"
proof -
  have x: "0 < x" using assms p2_pos[of "- 1022"] by linarith
  let ?e = "fexp x"
  have "ilog2 (2 powi (- 1022)) \<le> ilog2 x" using p2_pos assms by (rule ilog2_mono)
  moreover have "ilog2 (2 powi (- 1022)) = - 1022"
    by (rule ilog2_unique) (simp_all add: p2_less)
  ultimately have e: "?e + 52 = ilog2 x" using x by (simp add: fexp_pos_eq)
  let ?y = "x / 2 powi ?e"
  have yx: "?y * 2 powi ?e = x" by simp
  have "fl x - x = (of_int (rne ?y) - ?y) * 2 powi ?e"
    using x by (simp only: fl_pos_eq left_diff_distrib yx)
  then have "\<bar>fl x - x\<bar> = \<bar>of_int (rne ?y) - ?y\<bar> * 2 powi ?e"
    using p2_pos[of ?e] by (simp add: abs_mult)
  also have "\<dots> \<le> 1 / 2 * 2 powi ?e"
    using rne_error[of ?y] p2_pos[of ?e] by (simp only: mult_le_cancel_right_pos)
  also have "\<dots> = 2 powi (?e + 52) / 2 ^ 53" by (simp add: p2_add)
  also have "\<dots> \<le> x / 2 ^ 53"
    using ilog2_bounds(1)[OF x] by (simp only: e divide_le_cancel) simp
  finally show ?thesis .
qed

lemma fl_rel:
  assumes "2 powi (- 1022) \<le> x"
  shows "x * (1 - 1 / 2 ^ 53) \<le> fl x" and "fl x \<le> x * (1 + 1 / 2 ^ 53)"
proof -
  have "\<bar>fl x - x\<bar> \<le> x / 2 ^ 53" using assms by (rule fl_error)
  then have "x - x / 2 ^ 53 \<le> fl x" and "fl x \<le> x + x / 2 ^ 53" by linarith+
  then show "x * (1 - 1 / 2 ^ 53) \<le> fl x" and "fl x \<le> x * (1 + 1 / 2 ^ 53)"
    by (simp_all add: algebra_simps)
qed

lemma fl_of_int_exact:
  assumes "\<bar>n\<bar> < 2 ^ 53"
  shows "fl (of_int n) = of_int n"
proof (cases "n = 0")
  case True
  then show ?thesis by (simp add: fl_def)
next
  case False
  let ?x = "of_int n :: rat"
  let ?a = "of_int \<bar>n\<bar> :: rat"
  have ax: "\<bar>?x\<bar> = ?a" by simp
  have "1 \<le> \<bar>n\<bar>" using False by simp
  then have a1: "1 \<le> ?a" by (simp only: of_int_1_le_iff)
  have a0: "0 < ?a" using a1 by linarith
  have "?a < of_int (2 ^ 53)" using assms by (simp only: of_int_less_iff)
  then have a2: "?a < 2 powi 53" by simp
  let ?k = "ilog2 ?a"
  have k0: "0 \<le> ?k"
  proof (rule ccontr)
    assume "\<not> 0 \<le> ?k"
    then have "?k + 1 \<le> 0" by simp
    then have "(2::rat) powi (?k + 1) \<le> 2 powi 0" by (rule p2_le)
    then show False using ilog2_bounds(2)[OF a0] a1 by simp
  qed
  have k1: "?k \<le> 52"
  proof (rule ccontr)
    assume "\<not> ?k \<le> 52"
    then have "53 \<le> ?k" by simp
    then have "(2::rat) powi 53 \<le> 2 powi ?k" by (rule p2_le)
    then show False using ilog2_bounds(1)[OF a0] a2 by linarith
  qed
  define m where "m = nat (52 - ?k)"
  have e: "fexp ?x = - int m" using k0 k1 by (simp add: fexp_def m_def)
  have p: "(2::rat) powi (- int m) = 1 / 2 ^ m" by (simp add: power_int_minus_divide)
  have "?x / 2 powi fexp ?x = of_int (n * 2 ^ m)" by (simp add: e p)
  then have "rne (?x / 2 powi fexp ?x) = n * 2 ^ m" by (simp only: rne_of_int)
  then have "fl ?x = of_int (n * 2 ^ m) * 2 powi (- int m)" using False by (simp add: fl_def e)
  then show ?thesis by (simp add: p)
qed

section \<open>Properties of the layout\<close>

lemma a4_width_value: "a4_width = 5236099468337991 / 8796093022208"
  by code_simp

lemma a4_height_value: "a4_height = 7405340676649445 / 8796093022208"
  by code_simp

lemma float_of_int_exact: "\<bar>n\<bar> < 2 ^ 31 \<Longrightarrow> float_of_int n = of_int n"
proof -
  assume "\<bar>n\<bar> < 2 ^ 31"
  then have "\<bar>n\<bar> < 2 ^ 53" by simp
  then show ?thesis unfolding float_of_int_def by (rule fl_of_int_exact)
qed

lemma quotient_normal:
  fixes p :: rat
  assumes "1 \<le> p" and "0 < n" and "n < 2 ^ 31"
  shows "2 powi (- 1022) \<le> p / of_int n" and "1 / 2 ^ 31 \<le> p / of_int n"
proof -
  have n: "(0::rat) < of_int n" using assms(2) by simp
  have "(of_int n :: rat) < of_int (2 ^ 31)" using assms(3) by (simp only: of_int_less_iff)
  then have "(of_int n :: rat) \<le> 2 ^ 31" by simp
  then have "1 / 2 ^ 31 \<le> 1 / (of_int n :: rat)" using n by (simp add: frac_le)
  also have "\<dots> \<le> p / of_int n" using assms(1) n by (simp add: divide_right_mono)
  finally show b: "1 / 2 ^ 31 \<le> p / of_int n" .
  have "(2::rat) powi (- 1022) \<le> 2 powi (- 31)" by (rule p2_le) simp
  also have "\<dots> = 1 / 2 ^ 31" by (simp add: power_int_minus_divide)
  finally show "2 powi (- 1022) \<le> p / of_int n" using b by linarith
qed

lemma ratio_tolerance:
  fixes a b p q u :: rat
  assumes "0 < a" and "0 < b" and "0 \<le> u" and "u \<le> 1 / 2"
    and "a * (1 - u) \<le> p" and "p \<le> a * (1 + u)"
    and "b * (1 - u) \<le> q" and "q \<le> b * (1 + u)"
  shows "\<bar>p / q - a / b\<bar> \<le> a / b * (4 * u)"
proof -
  have q2: "b / 2 \<le> q"
  proof -
    have "b * (1 / 2) \<le> b * (1 - u)" using assms(2,4) by (intro mult_left_mono) simp_all
    then show ?thesis using assms(7) by simp
  qed
  have q: "0 < q" using q2 assms(2) by linarith
  have pb: "p * b \<le> a * b + u * (a * b)"
  proof -
    have "p * b \<le> a * (1 + u) * b" using assms(6,2) by (intro mult_right_mono) simp_all
    then show ?thesis by (simp add: algebra_simps)
  qed
  have pb': "a * b - u * (a * b) \<le> p * b"
  proof -
    have "a * (1 - u) * b \<le> p * b" using assms(5,2) by (intro mult_right_mono) simp_all
    then show ?thesis by (simp add: algebra_simps)
  qed
  have aq: "a * q \<le> a * b + u * (a * b)"
  proof -
    have "a * q \<le> a * (b * (1 + u))" using assms(8,1) by (intro mult_left_mono) simp_all
    then show ?thesis by (simp add: algebra_simps)
  qed
  have aq': "a * b - u * (a * b) \<le> a * q"
  proof -
    have "a * (b * (1 - u)) \<le> a * q" using assms(7,1) by (intro mult_left_mono) simp_all
    then show ?thesis by (simp add: algebra_simps)
  qed
  have d: "\<bar>p * b - a * q\<bar> \<le> 2 * u * (a * b)" using pb pb' aq aq' by linarith
  have e: "p / q - a / b = (p * b - a * q) / (q * b)"
    using q assms(2) by (simp add: field_simps)
  have "\<bar>p / q - a / b\<bar> = \<bar>p * b - a * q\<bar> / (q * b)"
    using q assms(2) by (simp only: e abs_divide) simp
  also have "\<dots> \<le> 2 * u * (a * b) / (q * b)"
    using d q assms(2) by (intro divide_right_mono) simp_all
  also have "\<dots> = 2 * u * a / q" using assms(2) by simp
  also have "\<dots> \<le> 2 * u * a / (b / 2)"
    using q2 assms(1,2,3) by (intro divide_left_mono) simp_all
  also have "\<dots> = a / b * (4 * u)" by simp
  finally show ?thesis .
qed

lemma twice_rounded:
  fixes t v :: rat
  assumes "0 \<le> t" and "v \<le> t * (1 + 1 / 2 ^ 53) * (1 + 1 / 2 ^ 53)"
  shows "v \<le> t * (1 + 1 / 2 ^ 51)"
proof -
  have "(1 + 1 / 2 ^ 53) * (1 + 1 / 2 ^ 53) \<le> (1 + 1 / 2 ^ 51 :: rat)" by simp
  then have "t * ((1 + 1 / 2 ^ 53) * (1 + 1 / 2 ^ 53)) \<le> t * (1 + 1 / 2 ^ 51)"
    using assms(1) by (rule mult_left_mono)
  then show ?thesis using assms(2) by (simp add: mult.assoc)
qed

lemma a4_width_pos: "1 \<le> a4_width"
  by (simp add: a4_width_value)

lemma a4_height_pos: "1 \<le> a4_height"
  by (simp add: a4_height_value)

lemma scaled_bounds:
  fixes p :: rat
  assumes p: "1 \<le> p" and n: "0 < n" "n < 2 ^ 31"
    and r: "1 / 2 ^ 32 \<le> r" "r \<le> fl (p / of_int n)"
  shows "of_int n * r * (1 - 1 / 2 ^ 53) \<le> fl (of_int n * r)"
    and "fl (of_int n * r) \<le> of_int n * r * (1 + 1 / 2 ^ 53)"
    and "fl (of_int n * r) \<le> p * (1 + 1 / 2 ^ 51)"
proof -
  let ?n = "of_int n :: rat"
  have n1: "1 \<le> ?n" using n(1) by simp
  have n0: "0 < ?n" using n(1) by simp
  have r0: "0 < r" using r(1) by (rule less_le_trans[rotated]) simp
  have "1 * r \<le> ?n * r" using n1 r0 by (intro mult_right_mono) simp_all
  then have "r \<le> ?n * r" by (simp only: mult_1)
  then have nr: "1 / 2 ^ 32 \<le> ?n * r" using r(1) by linarith
  have "(2::rat) powi (- 1022) \<le> 2 powi (- 32)" by (rule p2_le) simp
  also have "\<dots> = 1 / 2 ^ 32" by (simp add: power_int_minus_divide)
  finally have norm: "2 powi (- 1022) \<le> ?n * r" using nr by linarith
  show lo: "?n * r * (1 - 1 / 2 ^ 53) \<le> fl (?n * r)" using norm by (rule fl_rel(1))
  show hi: "fl (?n * r) \<le> ?n * r * (1 + 1 / 2 ^ 53)" using norm by (rule fl_rel(2))
  have q: "fl (p / ?n) \<le> p / ?n * (1 + 1 / 2 ^ 53)"
    using quotient_normal(1)[OF p n] by (rule fl_rel(2))
  have "?n * r \<le> ?n * (p / ?n * (1 + 1 / 2 ^ 53))"
    using r(2) q n0 by (intro mult_left_mono) simp_all
  also have "\<dots> = p * (1 + 1 / 2 ^ 53)" using n0 by simp
  finally have "?n * r * (1 + 1 / 2 ^ 53) \<le> p * (1 + 1 / 2 ^ 53) * (1 + 1 / 2 ^ 53)"
    by (intro mult_right_mono) simp_all
  then have "fl (?n * r) \<le> p * (1 + 1 / 2 ^ 53) * (1 + 1 / 2 ^ 53)" using hi by linarith
  moreover have "0 \<le> p" using p by simp
  ultimately show "fl (?n * r) \<le> p * (1 + 1 / 2 ^ 51)" by (intro twice_rounded)
qed

lemma quotient_lower:
  fixes p :: rat
  assumes "1 \<le> p" and "0 < n" and "n < 2 ^ 31"
  shows "1 / 2 ^ 32 \<le> fl (p / of_int n)"
proof -
  have a: "1 / 2 ^ 31 \<le> p / of_int n" using assms by (rule quotient_normal(2))
  have "p / of_int n * (1 - 1 / 2 ^ 53) \<le> fl (p / of_int n)"
    using quotient_normal(1)[OF assms] by (rule fl_rel(1))
  moreover have "1 / 2 ^ 31 * (1 - 1 / 2 ^ 53) \<le> p / of_int n * (1 - 1 / 2 ^ 53)"
    using a by (intro mult_right_mono) simp_all
  moreover have "(1 / 2 ^ 32 :: rat) \<le> 1 / 2 ^ 31 * (1 - 1 / 2 ^ 53)" by simp
  ultimately show ?thesis by linarith
qed

lemma compute_layout_a4:
  assumes "float_of_int w = fw" and "fw \<noteq> 0" and "float_of_int h = fh" and "fh \<noteq> 0"
    and "fl (a4_width / fw) = rw" and "fl (a4_height / fh) = rh" and "min rw rh = r"
    and "fl (fw * r) = nw" and "fl (fh * r) = nh"
  shows "compute_layout True w h =
    Inr \<lparr>page_width = a4_width, page_height = a4_height, ratio = r,
         new_width = nw, new_height = nh,
         x_pos = fl (fl (a4_width - nw) / 2), y_pos = fl (fl (a4_height - nh) / 2)\<rparr>"
  using assms by (simp add: compute_layout_def float_div_def Let_def)

lemma quotient_71:
  "fl (a4_width / 71) = 4719864309487767 / 562949953421312"
  "fl (a4_height / 71) = 1668809166568889 / 140737488355328"
  unfolding a4_width_value a4_height_value by code_simp+

lemma product_71:
  "fl (71 * (4719864309487767 / 562949953421312)) = 654512433542249 / 1099511627776"
  by code_simp

section \<open>Properties of the loop and of the canvas\<close>

text \<open>
  The loop never raises on its own: the total is the length of the list, so the division of
  the progress value has a divisor that is not zero whenever the body runs. What the loop
  leaves is the canvas after each entry in turn, one report entry for each failed entry and
  one progress value for each entry. A failed entry commits no page but may leave drawing
  operators behind; a drawn entry commits one page, which also holds what was left behind.
\<close>

lemma float_of_int_100: "float_of_int 100 = 100"
  using float_of_int_exact[of 100] by simp

lemma percent_eq:
  "n \<noteq> 0 \<Longrightarrow> percent (int i) (int n) = Inr (trunc_percent i n)"
  by (simp add: percent_def int_truediv_def trunc_percent_def float_of_int_100)

lemma image_body_snd: "snd (image_body wk c img) = image_error wk img"
  by (simp add: image_error_def image_body_def Let_def split: sum.splits prod.splits option.splits)

lemma loop_canvas_Cons:
  "loop_canvas wk c (img # imgs) = loop_canvas wk (fst (image_body wk c img)) imgs"
  by (simp add: loop_canvas_def)

lemma loop_canvas_Nil: "loop_canvas wk c [] = c"
  by (simp add: loop_canvas_def)

lemma loop_canvas_append:
  "loop_canvas wk c (xs @ ys) = loop_canvas wk (loop_canvas wk c xs) ys"
  by (simp add: loop_canvas_def)

lemma for_loop_eq:
  assumes "imgs = [] \<or> n \<noteq> 0"
  shows "for_loop wk n idx imgs s =
    (\<lparr>canv = loop_canvas wk (canv s) imgs,
      failed_images = failed_images s @ entries wk imgs,
      emitted = emitted s @ map (\<lambda>k. Progress (trunc_percent (idx + k) n)) [0..<length imgs]\<rparr>,
     None)"
  using assms
proof (induction imgs arbitrary: idx s)
  case Nil
  then show ?case by (simp add: loop_canvas_Nil entries_def)
next
  case (Cons img imgs)
  then have n: "n \<noteq> 0" by simp
  obtain c r where b: "image_body wk (canv s) img = (c, r)" by (cases "image_body wk (canv s) img")
  have r: "r = image_error wk img" using image_body_snd[of wk "canv s" img] b by simp
  have c: "c = fst (image_body wk (canv s) img)" using b by simp
  have u: "map (\<lambda>k. Progress (trunc_percent (idx + k) n)) [0..<Suc (length imgs)] =
      Progress (trunc_percent idx n) # map (\<lambda>k. Progress (trunc_percent (Suc idx + k) n)) [0..<length imgs]"
    by (simp add: map_upt_Suc del: upt_Suc)
  show ?case
    using Cons.IH[of "Suc idx"] n
    by (simp add: b percent_eq u loop_canvas_Cons c[symmetric] entries_def r[symmetric]
        del: upt_Suc split: option.splits)
qed

lemma progress_values_emitted: "progress_values (map Progress ns @ [Finished r]) = ns"
  by (induction ns) simp_all

lemma run_eq:
  "run wk wr =
    \<lparr>signals = map (\<lambda>k. Progress (trunc_percent (1 + k) (length (images wk)))) [0..<length (images wk)] @
       [Finished (failure_report wk @
          (case wr of None \<Rightarrow> [] | Some e \<Rightarrow> [''PDF creation failed: '' @ str_exn e]))],
     final_canvas = fst (save (loop_canvas wk new_canvas (images wk)) wr),
     document = (case wr of None \<Rightarrow> Some (pages (fst (save (loop_canvas wk new_canvas (images wk)) wr)))
                 | Some e \<Rightarrow> None)\<rparr>"
proof -
  have "images wk = [] \<or> length (images wk) \<noteq> 0" by simp
  then show ?thesis
    by (simp add: run_def for_loop_eq save_def failure_report_def del: upt_Suc split: option.splits)
qed

lemma run_progress:
  "progress_values (signals (run wk wr)) =
     map (\<lambda>i. trunc_percent i (length (images wk))) [1..<Suc (length (images wk))]"
proof -
  let ?n = "length (images wk)"
  have "progress_values (signals (run wk wr)) = map (\<lambda>k. trunc_percent (1 + k) ?n) [0..<?n]"
    using progress_values_emitted[of "map (\<lambda>k. trunc_percent (1 + k) ?n) [0..<?n]"]
    by (simp add: run_eq comp_def del: upt_Suc)
  also have "\<dots> = map (\<lambda>i. trunc_percent i ?n) (map Suc [0..<?n])" by (simp add: comp_def del: upt_Suc)
  also have "map Suc [0..<?n] = [1..<Suc ?n]" by (simp only: map_Suc_upt One_nat_def)
  finally show ?thesis .
qed

lemma trunc_percent_mono:
  assumes "i \<le> j"
  shows "trunc_percent i n \<le> trunc_percent j n"
proof -
  let ?a = "of_nat i / of_nat n :: rat"
  let ?b = "of_nat j / of_nat n :: rat"
  have a0: "0 \<le> ?a" by simp
  have ab: "?a \<le> ?b" using assms by (simp add: divide_right_mono)
  have f0: "0 \<le> fl ?a" using a0 by (rule fl_nonneg)
  have "fl ?a \<le> fl ?b" using a0 ab by (rule fl_mono)
  then have m: "fl ?a * 100 \<le> fl ?b * 100" by simp
  have m0: "0 \<le> fl ?a * 100" using f0 by simp
  have g: "fl (fl ?a * 100) \<le> fl (fl ?b * 100)" using m0 m by (rule fl_mono)
  have g0: "0 \<le> fl (fl ?a * 100)" using m0 by (rule fl_nonneg)
  then have g1: "0 \<le> fl (fl ?b * 100)" using g by linarith
  show ?thesis using g g0 g1 by (simp add: trunc_percent_def py_int_def floor_mono)
qed

lemma trunc_percent_full:
  assumes "n \<noteq> 0"
  shows "trunc_percent n n = 100"
proof -
  have q: "(of_nat n / of_nat n :: rat) = 1" using assms by simp
  have f1: "fl 1 = 1" using fl_of_int_exact[of 1] by simp
  have f100: "fl 100 = 100" using fl_of_int_exact[of 100] by simp
  have "fl (fl (of_nat n / of_nat n) * 100) = 100" by (simp only: q f1 mult_1 f100)
  then show ?thesis by (simp add: trunc_percent_def py_int_def)
qed

lemma sorted_map_upt:
  assumes "\<And>i j. i \<le> j \<Longrightarrow> f i \<le> (f j :: int)"
  shows "sorted (map f [a..<b])"
  by (simp add: sorted_map sorted_wrt_iff_nth_less assms del: upt_Suc)

lemma drawn_images_append: "drawn_images (a @ b) = drawn_images a @ drawn_images b"
  by (induction a rule: drawn_images.induct) simp_all

lemma drawn_images_background: "drawn_images (background wk l) = []"
  by (simp add: background_def split: prod.splits)

lemma background_not_Nil: "background wk l \<noteq> []"
  by (simp add: background_def split: prod.splits)

lemma image_body_unopened:
  "pil_size img = Inl e \<Longrightarrow> image_body wk c img = (c, Some e)"
  by (simp add: image_body_def)

lemma image_body_layout_error:
  "pil_size img = Inr (w, h) \<Longrightarrow> compute_layout (use_a4 wk) w h = Inl e \<Longrightarrow>
   image_body wk c img =
     ((if \<not> use_a4 wk then setPageSize c (of_int w, of_int h) else c), Some e)"
  by (simp add: image_body_def)

lemma image_body_buffered:
  "pil_size img = Inr (w, h) \<Longrightarrow> compute_layout (use_a4 wk) w h = Inr l \<Longrightarrow>
   rl_draw img = Some e \<Longrightarrow>
   image_body wk c img =
     (c\<lparr>pagesize := (if \<not> use_a4 wk then (of_int w, of_int h) else pagesize c),
        code := code c @ background wk l\<rparr>, Some e)"
  by (simp add: image_body_def background_def setPageSize_def setFillColorRGB_def rect_def
      split: prod.splits)

lemma image_body_drawn:
  "pil_size img = Inr (w, h) \<Longrightarrow> compute_layout (use_a4 wk) w h = Inr l \<Longrightarrow>
   rl_draw img = None \<Longrightarrow>
   image_body wk c img =
     (c\<lparr>pagesize := (if \<not> use_a4 wk then (of_int w, of_int h) else pagesize c),
        code := [],
        pages := pages c @
          [((if \<not> use_a4 wk then (of_int w, of_int h) else pagesize c),
            code c @ background wk l @
              [DrawImage (img_path img) (x_pos l) (y_pos l) (new_width l) (new_height l)])]\<rparr>,
      None)"
  by (simp add: image_body_def background_def setPageSize_def setFillColorRGB_def rect_def
      drawImage_def showPage_def split: prod.splits)

lemma image_body_failure:
  assumes "image_error wk img \<noteq> None"
  shows "pages (fst (image_body wk c img)) = pages c"
    and "\<exists>ops. code (fst (image_body wk c img)) = code c @ ops \<and> drawn_images ops = []"
proof -
  have "pages (fst (image_body wk c img)) = pages c \<and>
    (\<exists>ops. code (fst (image_body wk c img)) = code c @ ops \<and> drawn_images ops = [])"
  proof (cases "pil_size img")
    case (Inl e)
    then show ?thesis by (simp add: image_body_unopened)
  next
    case (Inr d)
    obtain w h where d: "pil_size img = Inr (w, h)" using Inr by (cases d) simp
    show ?thesis
    proof (cases "compute_layout (use_a4 wk) w h")
      case (Inl e)
      then show ?thesis using d by (simp add: image_body_layout_error setPageSize_def)
    next
      case l: (Inr l)
      show ?thesis
      proof (cases "rl_draw img")
        case None
        then have "image_error wk img = None"
          using d l by (simp add: image_error_def image_body_drawn)
        then show ?thesis using assms by simp
      next
        case (Some e)
        then show ?thesis using d l by (simp add: image_body_buffered drawn_images_background)
      qed
    qed
  qed
  then show "pages (fst (image_body wk c img)) = pages c"
    and "\<exists>ops. code (fst (image_body wk c img)) = code c @ ops \<and> drawn_images ops = []"
    by blast+
qed

lemma image_body_success:
  assumes "image_error wk img = None"
  shows "\<exists>sz ops. pages (fst (image_body wk c img)) = pages c @ [(sz, code c @ ops)]
    \<and> drawn_images ops = [img_path img] \<and> code (fst (image_body wk c img)) = []"
proof (cases "pil_size img")
  case (Inl e)
  then have "image_error wk img = Some e" by (simp add: image_error_def image_body_unopened)
  then show ?thesis using assms by simp
next
  case (Inr d)
  obtain w h where d: "pil_size img = Inr (w, h)" using Inr by (cases d) simp
  show ?thesis
  proof (cases "compute_layout (use_a4 wk) w h")
    case (Inl e)
    then have "image_error wk img = Some e"
      using d by (simp add: image_error_def image_body_layout_error)
    then show ?thesis using assms by simp
  next
    case l: (Inr l)
    show ?thesis
    proof (cases "rl_draw img")
      case None
      then show ?thesis
        using d l by (simp add: image_body_drawn drawn_images_append drawn_images_background)
    next
      case (Some e)
      then have "image_error wk img = Some e"
        using d l by (simp add: image_error_def image_body_buffered)
      then show ?thesis using assms by simp
    qed
  qed
qed

lemma loop_failures:
  assumes "list_all (\<lambda>f. image_error wk f \<noteq> None) fs"
  shows "pages (loop_canvas wk c fs) = pages c \<and>
    (\<exists>ops. code (loop_canvas wk c fs) = code c @ ops \<and> drawn_images ops = [])"
  using assms
proof (induction fs arbitrary: c)
  case Nil
  then show ?case by (simp add: loop_canvas_Nil)
next
  case (Cons f fs)
  then have f: "image_error wk f \<noteq> None" and fs: "list_all (\<lambda>f. image_error wk f \<noteq> None) fs"
    by simp_all
  let ?c = "fst (image_body wk c f)"
  obtain o1 where o1: "code ?c = code c @ o1" "drawn_images o1 = []"
    using image_body_failure(2)[OF f] by blast
  obtain o2 where o2: "code (loop_canvas wk ?c fs) = code ?c @ o2" "drawn_images o2 = []"
    using Cons.IH[OF fs] by blast
  have "pages (loop_canvas wk ?c fs) = pages c"
    using Cons.IH[OF fs] image_body_failure(1)[OF f] by simp
  moreover have "code (loop_canvas wk ?c fs) = code c @ (o1 @ o2) \<and> drawn_images (o1 @ o2) = []"
    using o1 o2 by (simp add: drawn_images_append)
  ultimately show ?case unfolding loop_canvas_Cons by blast
qed

lemma shown_images_append: "shown_images (a @ b) = shown_images a @ shown_images b"
  by (simp add: shown_images_def)

lemma loop_shown:
  assumes "drawn_images (code c) = []"
  shows "shown_images (pages (loop_canvas wk c imgs)) =
      shown_images (pages c) @
      map (\<lambda>img. [img_path img]) (filter (\<lambda>img. image_error wk img = None) imgs)
    \<and> drawn_images (code (loop_canvas wk c imgs)) = []"
  using assms
proof (induction imgs arbitrary: c)
  case Nil
  then show ?case by (simp add: loop_canvas_Nil)
next
  case (Cons img imgs)
  let ?c = "fst (image_body wk c img)"
  show ?case
  proof (cases "image_error wk img = None")
    case True
    obtain sz ops where s: "pages ?c = pages c @ [(sz, code c @ ops)]"
      "drawn_images ops = [img_path img]" "code ?c = []"
      using image_body_success[OF True] by blast
    have "drawn_images (code ?c) = []" using s(3) by simp
    then show ?thesis
      using Cons.IH[of ?c] True s Cons.prems
      by (simp add: loop_canvas_Cons shown_images_append shown_images_def drawn_images_append)
  next
    case False
    obtain ops where o: "code ?c = code c @ ops" "drawn_images ops = []"
      using image_body_failure(2)[OF False] by blast
    have "drawn_images (code ?c) = []" using o Cons.prems by (simp add: drawn_images_append)
    then show ?thesis
      using Cons.IH[of ?c] False image_body_failure(1)[OF False, of c]
      by (simp add: loop_canvas_Cons)
  qed
qed

lemma save_shown:
  assumes "drawn_images (code c) = []"
  shows "shown_images (pages (fst (save c wr))) = shown_images (pages c)"
  using assms by (simp add: save_def showPage_def shown_images_def)

lemma percent_of_three:
  "trunc_percent 1 3 = 33" "trunc_percent 2 3 = 66" "trunc_percent 3 3 = 100"
  by code_simp+

lemma loop_canvas_single: "loop_canvas wk c [img] = fst (image_body wk c img)"
  by (simp add: loop_canvas_def)

lemma save_buffered:
  "code c \<noteq> [] \<Longrightarrow> pages (fst (save c wr)) = pages c @ [(pagesize c, code c)]"
  by (simp add: save_def showPage_def)

lemma basename_plain: "basename ''a.png'' = ''a.png''"
  by (simp add: basename_def)

section \<open>Claims about the layout\<close>

text \<open>
  Claim C9. For every image with positive dimensions laid out under the match-image policy
  (\<open>use_a4\<close> is false), the page has the dimensions of the image, the scale ratio is
  \<open>1\<close>, the drawn size is the size of the image and the drawing offset is \<open>(0, 0)\<close>.
  When such an image opens and draws, the page the worker commits has the size of the image
  and shows the image at \<open>(0, 0)\<close> in its own size over the background.
\<close>

theorem match_image_layout:
  "0 < w \<Longrightarrow> 0 < h \<Longrightarrow>
   compute_layout False w h =
     Inr \<lparr>page_width = of_int w, page_height = of_int h, ratio = 1,
          new_width = of_int w, new_height = of_int h, x_pos = 0, y_pos = 0\<rparr>
   \<and> (\<not> use_a4 wk \<and> pil_size img = Inr (w, h) \<and> rl_draw img = None \<longrightarrow>
        pages (fst (image_body wk c img)) =
          pages c @
          [((of_int w, of_int h),
            code c @
            background wk \<lparr>page_width = of_int w, page_height = of_int h, ratio = 1,
              new_width = of_int w, new_height = of_int h, x_pos = 0, y_pos = 0\<rparr> @
            [DrawImage (img_path img) 0 0 (of_int w) (of_int h)])])"
proof -
  let ?l = "\<lparr>page_width = of_int w, page_height = of_int h, ratio = 1,
          new_width = of_int w, new_height = of_int h, x_pos = 0, y_pos = 0\<rparr>"
  have l: "compute_layout False w h = Inr ?l" by (simp add: compute_layout_def fl_def)
  have "pages (fst (image_body wk c img)) =
      pages c @ [((of_int w, of_int h),
        code c @ background wk ?l @ [DrawImage (img_path img) 0 0 (of_int w) (of_int h)])]"
    if a: "\<not> use_a4 wk" "pil_size img = Inr (w, h)" "rl_draw img = None"
  proof -
    have "compute_layout (use_a4 wk) w h = Inr ?l" using l a(1) by simp
    then show ?thesis using image_body_drawn[OF a(2) _ a(3), of wk ?l c] a(1) by simp
  qed
  then show ?thesis using l by blast
qed

theorem match_image_layout_witness:
  "(0::int) < 1000 \<and> (0::int) < 500
   \<and> \<not> use_a4 (example_worker [readable_image ''d.png'' 1000 500] False)
   \<and> pil_size (readable_image ''d.png'' 1000 500) = Inr (1000, 500)
   \<and> rl_draw (readable_image ''d.png'' 1000 500) = None
   \<and> compute_layout False 1000 500 =
     Inr \<lparr>page_width = 1000, page_height = 500, ratio = 1,
          new_width = 1000, new_height = 500, x_pos = 0, y_pos = 0\<rparr>
   \<and> pages (fst (image_body (example_worker [readable_image ''d.png'' 1000 500] False)
        new_canvas (readable_image ''d.png'' 1000 500))) =
     [((1000, 500),
       [SetFillColorRGB 1 1 1, Rect 0 0 1000 500, DrawImage ''d.png'' 0 0 1000 500])]"
proof -
  let ?wk = "example_worker [readable_image ''d.png'' 1000 500] False"
  let ?img = "readable_image ''d.png'' 1000 500"
  have h: "\<not> use_a4 ?wk" "pil_size ?img = Inr (1000, 500)" "rl_draw ?img = None"
    by (simp_all add: example_worker_def readable_image_def)
  have b: "bg_color ?wk = (1, 1, 1)" and p: "img_path ?img = ''d.png''"
    and n: "pages new_canvas = []" "code new_canvas = []"
    by (simp_all add: example_worker_def readable_image_def new_canvas_def)
  show ?thesis
    using match_image_layout[of 1000 500 ?wk ?img new_canvas] h
    by (simp add: background_def b p n)
qed

text \<open>
  Claim C4, as amended. The layout is a function of the policy and the dimensions. Under
  the match-image policy it never fails, also for dimensions that are not positive. Under
  the A4 policy it fails exactly when the width or the height is zero, and the exception is
  the \<open>ZeroDivisionError\<close> of the float division; a negative dimension does not fail.
  There is no error of its own for invalid dimensions. Dimensions are in the range of a C int.
\<close>

theorem layout_failure:
  assumes "\<bar>w\<bar> < 2 ^ 31" and "\<bar>h\<bar> < 2 ^ 31"
  shows "(\<forall>e. compute_layout False w h \<noteq> Inl e) \<and>
         (compute_layout True w h = Inl e \<longleftrightarrow>
            (w = 0 \<or> h = 0) \<and> e = ZeroDivisionError ''float division by zero'')"
proof -
  have w: "float_of_int w = of_int w" using assms(1) by (rule float_of_int_exact)
  have h: "float_of_int h = of_int h" using assms(2) by (rule float_of_int_exact)
  show ?thesis
    by (auto simp add: compute_layout_def float_div_def w h Let_def)
qed

theorem layout_failure_witness:
  "\<bar>0::int\<bar> < 2 ^ 31 \<and> \<bar>5::int\<bar> < 2 ^ 31 \<and>
   compute_layout True 0 5 = Inl (ZeroDivisionError ''float division by zero'') \<and>
   compute_layout False 0 5 \<noteq> Inl (ZeroDivisionError ''float division by zero'')"
  using layout_failure [of 0 5 "ZeroDivisionError ''float division by zero''"] by simp

text \<open>
  The claim as stated fails: under the match-image policy an image of width and height zero
  is laid out without an error.
\<close>

theorem layout_failure_counterexample:
  "compute_layout False 0 0 =
     Inr \<lparr>page_width = 0, page_height = 0, ratio = 1,
          new_width = 0, new_height = 0, x_pos = 0, y_pos = 0\<rparr>"
  by (simp add: compute_layout_def fl_def)

text \<open>
  Claim C3, as amended. For every image with positive dimensions (in the range of a C int)
  laid out on the A4 page: the ratio is the smaller of the two float quotients, the drawn
  size is the image size times the ratio, the offsets are half of what the page leaves, the
  drawn aspect ratio is the image's up to a relative error of \<open>2 ^ -51\<close>, and the drawn
  size exceeds the page size by at most the relative error \<open>2 ^ -51\<close>.
\<close>

theorem fixed_size_layout:
  assumes "0 < w" and "w < 2 ^ 31" and "0 < h" and "h < 2 ^ 31"
  shows "\<exists>l. compute_layout True w h = Inr l
    \<and> page_width l = a4_width \<and> page_height l = a4_height
    \<and> ratio l = min (fl (a4_width / of_int w)) (fl (a4_height / of_int h))
    \<and> new_width l = fl (of_int w * ratio l) \<and> new_height l = fl (of_int h * ratio l)
    \<and> x_pos l = fl (fl (page_width l - new_width l) / 2)
    \<and> y_pos l = fl (fl (page_height l - new_height l) / 2)
    \<and> \<bar>new_width l / new_height l - of_int w / of_int h\<bar> \<le> of_int w / of_int h * (1 / 2 ^ 51)
    \<and> new_width l \<le> page_width l * (1 + 1 / 2 ^ 51)
    \<and> new_height l \<le> page_height l * (1 + 1 / 2 ^ 51)"
proof -
  define r where "r = min (fl (a4_width / of_int w)) (fl (a4_height / of_int h))"
  define nw where "nw = fl (of_int w * r)"
  define nh where "nh = fl (of_int h * r)"
  define l where "l = \<lparr>page_width = a4_width, page_height = a4_height, ratio = r,
    new_width = nw, new_height = nh,
    x_pos = fl (fl (a4_width - nw) / 2), y_pos = fl (fl (a4_height - nh) / 2)\<rparr>"
  have fw: "float_of_int w = of_int w" using assms(1,2) by (intro float_of_int_exact) simp
  have fh: "float_of_int h = of_int h" using assms(3,4) by (intro float_of_int_exact) simp
  have cl: "compute_layout True w h = Inr l"
    using assms(1,3) by (simp add: compute_layout_def float_div_def fw fh Let_def l_def r_def nw_def nh_def)
  have rw: "r \<le> fl (a4_width / of_int w)" and rh: "r \<le> fl (a4_height / of_int h)"
    by (simp_all add: r_def)
  have rlo: "1 / 2 ^ 32 \<le> r"
    using quotient_lower[OF a4_width_pos assms(1,2)] quotient_lower[OF a4_height_pos assms(3,4)]
    by (simp add: r_def)
  have r0: "0 < r" using rlo by (rule less_le_trans[rotated]) simp
  note bw = scaled_bounds[OF a4_width_pos assms(1,2) rlo rw]
  note bh = scaled_bounds[OF a4_height_pos assms(3,4) rlo rh]
  have w0: "(0::rat) < of_int w * r" and h0: "(0::rat) < of_int h * r"
    using assms(1,3) r0 by simp_all
  have "\<bar>nw / nh - of_int w * r / (of_int h * r)\<bar> \<le> of_int w * r / (of_int h * r) * (4 * (1 / 2 ^ 53))"
    unfolding nw_def nh_def
    using w0 h0 _ _ bw(1,2) bh(1,2) by (rule ratio_tolerance) simp_all
  moreover have "of_int w * r / (of_int h * r) = (of_int w / of_int h :: rat)" using r0 by simp
  ultimately have asp: "\<bar>nw / nh - of_int w / of_int h\<bar> \<le> of_int w / of_int h * (1 / 2 ^ 51)"
    by simp
  have "page_width l = a4_width \<and> page_height l = a4_height
    \<and> ratio l = min (fl (a4_width / of_int w)) (fl (a4_height / of_int h))
    \<and> new_width l = fl (of_int w * ratio l) \<and> new_height l = fl (of_int h * ratio l)
    \<and> x_pos l = fl (fl (page_width l - new_width l) / 2)
    \<and> y_pos l = fl (fl (page_height l - new_height l) / 2)"
    by (simp add: l_def r_def nw_def nh_def)
  moreover have "\<bar>new_width l / new_height l - of_int w / of_int h\<bar> \<le> of_int w / of_int h * (1 / 2 ^ 51)"
    using asp by (simp add: l_def)
  moreover have "new_width l \<le> page_width l * (1 + 1 / 2 ^ 51)"
    using bw(3) by (simp add: l_def nw_def)
  moreover have "new_height l \<le> page_height l * (1 + 1 / 2 ^ 51)"
    using bh(3) by (simp add: l_def nh_def)
  ultimately show ?thesis using cl by blast
qed

theorem fixed_size_layout_witness:
  "(0::int) < 800 \<and> (800::int) < 2 ^ 31 \<and> (0::int) < 600 \<and> (600::int) < 2 ^ 31 \<and>
   (\<exists>l. compute_layout True 800 600 = Inr l
    \<and> page_width l = a4_width \<and> page_height l = a4_height
    \<and> ratio l = min (fl (a4_width / of_int 800)) (fl (a4_height / of_int 600))
    \<and> new_width l = fl (of_int 800 * ratio l) \<and> new_height l = fl (of_int 600 * ratio l)
    \<and> x_pos l = fl (fl (page_width l - new_width l) / 2)
    \<and> y_pos l = fl (fl (page_height l - new_height l) / 2)
    \<and> \<bar>new_width l / new_height l - of_int 800 / of_int 600\<bar> \<le> of_int 800 / of_int 600 * (1 / 2 ^ 51)
    \<and> new_width l \<le> page_width l * (1 + 1 / 2 ^ 51)
    \<and> new_height l \<le> page_height l * (1 + 1 / 2 ^ 51))"
proof -
  have "\<exists>l. compute_layout True 800 600 = Inr l
    \<and> page_width l = a4_width \<and> page_height l = a4_height
    \<and> ratio l = min (fl (a4_width / of_int 800)) (fl (a4_height / of_int 600))
    \<and> new_width l = fl (of_int 800 * ratio l) \<and> new_height l = fl (of_int 600 * ratio l)
    \<and> x_pos l = fl (fl (page_width l - new_width l) / 2)
    \<and> y_pos l = fl (fl (page_height l - new_height l) / 2)
    \<and> \<bar>new_width l / new_height l - of_int 800 / of_int 600\<bar> \<le> of_int 800 / of_int 600 * (1 / 2 ^ 51)
    \<and> new_width l \<le> page_width l * (1 + 1 / 2 ^ 51)
    \<and> new_height l \<le> page_height l * (1 + 1 / 2 ^ 51)"
    by (rule fixed_size_layout) simp_all
  then show ?thesis by simp
qed

text \<open>
  The claim as stated fails: for an image of 71 by 71 pixels the drawn width is the float next
  above the page width.
\<close>

theorem fixed_size_overshoot:
  "(case compute_layout True 71 71 of Inl e \<Rightarrow> False | Inr l \<Rightarrow> page_width l < new_width l)"
proof -
  have f: "float_of_int 71 = 71" using float_of_int_exact[of 71] by simp
  have m: "min (4719864309487767 / 562949953421312 :: rat) (1668809166568889 / 140737488355328)
    = 4719864309487767 / 562949953421312" by simp
  have "compute_layout True 71 71 =
    Inr \<lparr>page_width = a4_width, page_height = a4_height,
         ratio = 4719864309487767 / 562949953421312,
         new_width = 654512433542249 / 1099511627776,
         new_height = fl (71 * (4719864309487767 / 562949953421312)),
         x_pos = fl (fl (a4_width - 654512433542249 / 1099511627776) / 2),
         y_pos = fl (fl (a4_height - fl (71 * (4719864309487767 / 562949953421312))) / 2)\<rparr>"
    by (rule compute_layout_a4[OF f _ f _ quotient_71 m product_71 refl]) simp_all
  then show ?thesis by (simp add: a4_width_value)
qed

section \<open>Claims about a run\<close>

text \<open>
  Claim C1, as amended. In every run over a list of N images, the progress values emitted
  are, in order, \<open>int(index / N * 100)\<close> for index 1 to N, the float product truncated
  toward zero and not rounded, whichever images fail; there is exactly one progress value
  for each input image.
\<close>

theorem progress_per_image:
  "progress_values (signals (run wk wr)) =
     map (\<lambda>i. trunc_percent i (length (images wk))) [1..<Suc (length (images wk))]
   \<and> length (progress_values (signals (run wk wr))) = length (images wk)"
  by (simp add: run_progress del: upt_Suc)

text \<open>
  The claim as stated fails: for the second of three images the emitted value is 66, and
  the rounded value the claim gives is 67.
\<close>

theorem progress_rounding_counterexample:
  "progress_values (signals (run (example_worker
      [readable_image ''a.png'' 800 600, readable_image ''b.png'' 800 600,
       readable_image ''c.png'' 800 600] True) None)) = [33, 66, 100]
   \<and> spec_percent 2 3 = 67"
proof -
  let ?wk = "example_worker
      [readable_image ''a.png'' 800 600, readable_image ''b.png'' 800 600,
       readable_image ''c.png'' 800 600] True"
  have s: "spec_percent 2 3 = 67" by code_simp
  have l: "length (images ?wk) = 3" by (simp add: example_worker_def)
  have u: "[1..<Suc 3] = [1, 2, 3]" by (simp add: upt_rec)
  have "progress_values (signals (run ?wk None)) = map (\<lambda>i. trunc_percent i 3) [1, 2, 3]"
    by (simp only: run_progress l u)
  also have "\<dots> = [33, 66, 100]" by (simp only: list.map percent_of_three)
  finally show ?thesis using s by (rule conjI)
qed

text \<open>
  Claim C7. In every run over at least one image, whichever images fail and whether or not
  the file is written, the emitted progress values are non-decreasing and the last one is
  exactly 100.
\<close>

theorem progress_monotone:
  "images wk \<noteq> [] \<Longrightarrow>
   sorted (progress_values (signals (run wk wr))) \<and>
   last (progress_values (signals (run wk wr))) = 100"
proof -
  assume a: "images wk \<noteq> []"
  let ?n = "length (images wk)"
  have n: "?n \<noteq> 0" using a by simp
  have s: "sorted (map (\<lambda>i. trunc_percent i ?n) [1..<Suc ?n])"
    by (rule sorted_map_upt) (rule trunc_percent_mono)
  have n1: "1 \<le> ?n" using a by (cases "images wk") simp_all
  have "[1..<Suc ?n] \<noteq> []" using n1 by simp
  then have "last (map (\<lambda>i. trunc_percent i ?n) [1..<Suc ?n]) = trunc_percent (last [1..<Suc ?n]) ?n"
    by (rule last_map)
  also have "last [1..<Suc ?n] = ?n" using n1 by simp
  finally have "last (map (\<lambda>i. trunc_percent i ?n) [1..<Suc ?n]) = 100"
    using trunc_percent_full[OF n] by simp
  then show ?thesis using s by (simp only: run_progress)
qed

theorem progress_monotone_witness:
  "images (example_worker [readable_image ''a.png'' 800 600, unreadable_image ''b.png'',
      readable_image ''c.png'' 400 400] True) \<noteq> [] \<and>
   sorted (progress_values (signals (run (example_worker [readable_image ''a.png'' 800 600,
      unreadable_image ''b.png'', readable_image ''c.png'' 400 400] True) None))) \<and>
   last (progress_values (signals (run (example_worker [readable_image ''a.png'' 800 600,
      unreadable_image ''b.png'', readable_image ''c.png'' 400 400] True) None))) = 100"
proof -
  have h: "images (example_worker [readable_image ''a.png'' 800 600, unreadable_image ''b.png'',
      readable_image ''c.png'' 400 400] True) \<noteq> []"
    by (simp add: example_worker_def)
  show ?thesis using h progress_monotone[OF h, of None] by blast
qed

text \<open>
  Claim C5. In every run the signals are the progress values followed by exactly one
  \<open>Finished\<close> signal, so the report is always delivered and no exception escapes. If
  writing the file succeeds the report is the per-image entries; if it raises, the report
  is the same per-image entries followed by exactly one entry of the other form,
  \<open>PDF creation failed: ...\<close>.
\<close>

theorem report_delivered:
  "signals (run wk None) =
     map Progress (progress_values (signals (run wk None))) @ [Finished (failure_report wk)]
   \<and> signals (run wk (Some e)) =
     map Progress (progress_values (signals (run wk (Some e)))) @
     [Finished (failure_report wk @ [''PDF creation failed: '' @ str_exn e])]"
proof -
  have "\<And>wr. signals (run wk wr) =
     map Progress (progress_values (signals (run wk wr))) @
     [Finished (failure_report wk @
        (case wr of None \<Rightarrow> [] | Some e \<Rightarrow> [''PDF creation failed: '' @ str_exn e]))]"
  proof -
    fix wr
    let ?ns = "map (\<lambda>k. trunc_percent (1 + k) (length (images wk))) [0..<length (images wk)]"
    let ?r = "failure_report wk @
        (case wr of None \<Rightarrow> [] | Some e \<Rightarrow> [''PDF creation failed: '' @ str_exn e])"
    have s: "signals (run wk wr) = map Progress ?ns @ [Finished ?r]"
      by (simp add: run_eq comp_def del: upt_Suc)
    show "signals (run wk wr) = map Progress (progress_values (signals (run wk wr))) @ [Finished ?r]"
      by (simp only: s progress_values_emitted)
  qed
  from this[of None] this[of "Some e"] show ?thesis by simp
qed

text \<open>
  Claim C6, as amended. If the list of images is empty, no progress is emitted and no page
  is built; if writing the file succeeds, the document has zero pages and the report is
  empty; if writing the file raises, no document is written and the report is the one
  entry \<open>PDF creation failed: ...\<close>.
\<close>

theorem empty_batch:
  "images wk = [] \<Longrightarrow>
   signals (run wk wr) =
     [Finished (case wr of None \<Rightarrow> [] | Some e \<Rightarrow> [''PDF creation failed: '' @ str_exn e])]
   \<and> pages (final_canvas (run wk wr)) = []
   \<and> document (run wk wr) = (case wr of None \<Rightarrow> Some [] | Some e \<Rightarrow> None)"
  by (simp add: run_eq failure_report_def entries_def loop_canvas_Nil save_def new_canvas_def
      split: option.splits)

theorem empty_batch_witness:
  "images (example_worker [] True) = [] \<and>
   signals (run (example_worker [] True) None) = [Finished []] \<and>
   pages (final_canvas (run (example_worker [] True) None)) = [] \<and>
   document (run (example_worker [] True) None) = Some []"
proof -
  have h: "images (example_worker [] True) = []" by (simp add: example_worker_def)
  show ?thesis using h empty_batch[OF h, of None] by simp
qed

text \<open>
  The claim as stated fails: with an empty list and a destination that cannot be written,
  the report is not empty.
\<close>

theorem empty_batch_counterexample:
  "signals (run (example_worker [] True) (Some (LibraryError ''Permission denied''))) =
     [Finished [''PDF creation failed: Permission denied'']]
   \<and> document (run (example_worker [] True) (Some (LibraryError ''Permission denied''))) = None"
  by (simp add: run_eq example_worker_def failure_report_def entries_def)

text \<open>
  Claim C8. For every input list and every pattern of failures, the pages that show an
  image show exactly one image each, and in page order these are the successfully processed
  images in the order of the input list. When writing succeeds, the document consists of
  these pages of the canvas.
\<close>

theorem page_order:
  "shown_images (pages (final_canvas (run wk wr))) =
     map (\<lambda>img. [img_path img]) (filter (\<lambda>img. image_error wk img = None) (images wk))
   \<and> document (run wk None) = Some (pages (final_canvas (run wk None)))"
proof -
  have c: "drawn_images (code new_canvas) = []" by (simp add: new_canvas_def)
  have p: "shown_images (pages new_canvas) = []" by (simp add: new_canvas_def shown_images_def)
  note l = loop_shown[OF c, of wk "images wk"]
  have "shown_images (pages (fst (save (loop_canvas wk new_canvas (images wk)) wr))) =
     shown_images (pages (loop_canvas wk new_canvas (images wk)))"
    using l by (intro save_shown) simp
  then show ?thesis using l p by (simp add: run_eq)
qed

text \<open>
  Claim C10. If drawing an image raises after its background has been painted, the
  background operators stay in the buffer of the current page and no page is committed for
  the image. If a later image succeeds after any number of failing ones, the page committed
  for it holds the buffered operators underneath its own. If no later image succeeds, the
  buffered operators are committed as a page of their own when the document is saved.
\<close>

theorem buffered_background:
  assumes "pil_size img = Inr (w, h)" and "compute_layout (use_a4 wk) w h = Inr l"
    and "rl_draw img = Some e" and "list_all (\<lambda>f. image_error wk f \<noteq> None) fs"
  shows "(code (loop_canvas wk c [img]) = code c @ background wk l
      \<and> pages (loop_canvas wk c [img]) = pages c)
    \<and> (image_error wk nxt = None \<longrightarrow>
        (\<exists>sz ops. pages (loop_canvas wk c (img # fs @ [nxt])) =
            pages c @ [(sz, code c @ background wk l @ ops)]
          \<and> drawn_images ops = [img_path nxt]))
    \<and> (images wk = pre @ img # fs \<longrightarrow>
        (\<exists>sz ops. pages (final_canvas (run wk wr)) =
            pages (loop_canvas wk new_canvas pre) @
            [(sz, code (loop_canvas wk new_canvas pre) @ background wk l @ ops)]
          \<and> drawn_images ops = []))"
proof -
  have one: "\<And>c. code (loop_canvas wk c [img]) = code c @ background wk l
      \<and> pages (loop_canvas wk c [img]) = pages c"
    using assms(1,2,3) by (simp add: loop_canvas_single image_body_buffered)
  have rest: "\<And>c. pages (loop_canvas wk c (img # fs)) = pages c \<and>
      (\<exists>ops. code (loop_canvas wk c (img # fs)) = code c @ background wk l @ ops
         \<and> drawn_images ops = [])"
  proof -
    fix c
    let ?c1 = "loop_canvas wk c [img]"
    have a: "loop_canvas wk c (img # fs) = loop_canvas wk ?c1 fs"
      using loop_canvas_append[of wk c "[img]" fs] by simp
    obtain ops where o: "code (loop_canvas wk ?c1 fs) = code ?c1 @ ops" "drawn_images ops = []"
      using loop_failures[OF assms(4), of ?c1] by blast
    have "pages (loop_canvas wk ?c1 fs) = pages c"
      using loop_failures[OF assms(4), of ?c1] one[of c] by simp
    moreover have "code (loop_canvas wk ?c1 fs) = code c @ background wk l @ ops"
      using o(1) one[of c] by simp
    ultimately show "pages (loop_canvas wk c (img # fs)) = pages c \<and>
      (\<exists>ops. code (loop_canvas wk c (img # fs)) = code c @ background wk l @ ops
         \<and> drawn_images ops = [])"
      using o(2) a by auto
  qed
  have two: "image_error wk nxt = None \<longrightarrow>
        (\<exists>sz ops. pages (loop_canvas wk c (img # fs @ [nxt])) =
            pages c @ [(sz, code c @ background wk l @ ops)]
          \<and> drawn_images ops = [img_path nxt])"
  proof
    assume n: "image_error wk nxt = None"
    let ?c2 = "loop_canvas wk c (img # fs)"
    obtain o1 where o1: "code ?c2 = code c @ background wk l @ o1" "drawn_images o1 = []"
      using rest[of c] by blast
    have p2: "pages ?c2 = pages c" using rest[of c] by simp
    obtain sz o2 where o2: "pages (fst (image_body wk ?c2 nxt)) = pages ?c2 @ [(sz, code ?c2 @ o2)]"
      "drawn_images o2 = [img_path nxt]"
      using image_body_success[OF n, of ?c2] by blast
    have a: "loop_canvas wk c (img # fs @ [nxt]) = fst (image_body wk ?c2 nxt)"
      using loop_canvas_append[of wk c "img # fs" "[nxt]"] by (simp add: loop_canvas_single)
    have "pages (loop_canvas wk c (img # fs @ [nxt])) =
        pages c @ [(sz, code c @ background wk l @ (o1 @ o2))]"
      using a o2(1) o1(1) p2 by simp
    moreover have "drawn_images (o1 @ o2) = [img_path nxt]"
      using o1(2) o2(2) by (simp add: drawn_images_append)
    ultimately show "\<exists>sz ops. pages (loop_canvas wk c (img # fs @ [nxt])) =
            pages c @ [(sz, code c @ background wk l @ ops)]
          \<and> drawn_images ops = [img_path nxt]" by blast
  qed
  have three: "images wk = pre @ img # fs \<longrightarrow>
        (\<exists>sz ops. pages (final_canvas (run wk wr)) =
            pages (loop_canvas wk new_canvas pre) @
            [(sz, code (loop_canvas wk new_canvas pre) @ background wk l @ ops)]
          \<and> drawn_images ops = [])"
  proof
    assume i: "images wk = pre @ img # fs"
    let ?c0 = "loop_canvas wk new_canvas pre"
    let ?c2 = "loop_canvas wk ?c0 (img # fs)"
    obtain ops where o: "code ?c2 = code ?c0 @ background wk l @ ops" "drawn_images ops = []"
      using rest[of ?c0] by blast
    have p2: "pages ?c2 = pages ?c0" using rest[of ?c0] by simp
    have ne: "code ?c2 \<noteq> []" using o(1) background_not_Nil[of wk l] by simp
    have f: "final_canvas (run wk wr) = fst (save ?c2 wr)"
      by (simp add: run_eq i loop_canvas_append)
    have "pages (final_canvas (run wk wr)) =
        pages ?c0 @ [(pagesize ?c2, code ?c0 @ background wk l @ ops)]"
      using save_buffered[OF ne, of wr] f o(1) p2 by simp
    then show "\<exists>sz ops. pages (final_canvas (run wk wr)) =
            pages ?c0 @ [(sz, code ?c0 @ background wk l @ ops)]
          \<and> drawn_images ops = []" using o(2) by blast
  qed
  show ?thesis using one[of c] two three by blast
qed

theorem buffered_background_witness:
  "pil_size (undrawable_image ''a.png'' 800 600) = Inr (800, 600)
   \<and> compute_layout (use_a4 (example_worker [undrawable_image ''a.png'' 800 600, unreadable_image ''b.png''] False)) 800 600 =
     Inr \<lparr>page_width = 800, page_height = 600, ratio = 1, new_width = 800, new_height = 600, x_pos = 0, y_pos = 0\<rparr>
   \<and> rl_draw (undrawable_image ''a.png'' 800 600) = Some (LibraryError ''broken data stream'')
   \<and> list_all (\<lambda>f. image_error (example_worker [undrawable_image ''a.png'' 800 600, unreadable_image ''b.png''] False) f \<noteq> None)
     [unreadable_image ''b.png'']
   \<and> image_error (example_worker [undrawable_image ''a.png'' 800 600, unreadable_image ''b.png''] False) (readable_image ''c.png'' 10 10) = None
   \<and> images (example_worker [undrawable_image ''a.png'' 800 600, unreadable_image ''b.png''] False) =
     [] @ undrawable_image ''a.png'' 800 600 # [unreadable_image ''b.png'']
   \<and> code (loop_canvas (example_worker [undrawable_image ''a.png'' 800 600, unreadable_image ''b.png''] False) new_canvas [undrawable_image ''a.png'' 800 600]) =
     code new_canvas @ background (example_worker [undrawable_image ''a.png'' 800 600, unreadable_image ''b.png''] False)
       \<lparr>page_width = 800, page_height = 600, ratio = 1, new_width = 800, new_height = 600, x_pos = 0, y_pos = 0\<rparr>
   \<and> pages (loop_canvas (example_worker [undrawable_image ''a.png'' 800 600, unreadable_image ''b.png''] False) new_canvas [undrawable_image ''a.png'' 800 600]) = pages new_canvas
   \<and> (\<exists>sz ops. pages (loop_canvas (example_worker [undrawable_image ''a.png'' 800 600, unreadable_image ''b.png''] False) new_canvas
        (undrawable_image ''a.png'' 800 600 # [unreadable_image ''b.png''] @ [readable_image ''c.png'' 10 10])) =
      pages new_canvas @ [(sz, code new_canvas @ background (example_worker [undrawable_image ''a.png'' 800 600, unreadable_image ''b.png''] False)
        \<lparr>page_width = 800, page_height = 600, ratio = 1, new_width = 800, new_height = 600, x_pos = 0, y_pos = 0\<rparr> @ ops)]
     \<and> drawn_images ops = [img_path (readable_image ''c.png'' 10 10)])
   \<and> (\<exists>sz ops. pages (final_canvas (run (example_worker [undrawable_image ''a.png'' 800 600, unreadable_image ''b.png''] False) None)) =
      pages (loop_canvas (example_worker [undrawable_image ''a.png'' 800 600, unreadable_image ''b.png''] False) new_canvas []) @
      [(sz, code (loop_canvas (example_worker [undrawable_image ''a.png'' 800 600, unreadable_image ''b.png''] False) new_canvas []) @ background (example_worker [undrawable_image ''a.png'' 800 600, unreadable_image ''b.png''] False)
        \<lparr>page_width = 800, page_height = 600, ratio = 1, new_width = 800, new_height = 600, x_pos = 0, y_pos = 0\<rparr> @ ops)]
     \<and> drawn_images ops = [])"
proof -
  let ?img = "undrawable_image ''a.png'' 800 600"
  let ?wk = "example_worker [undrawable_image ''a.png'' 800 600, unreadable_image ''b.png''] False"
  let ?nxt = "readable_image ''c.png'' 10 10"
  let ?l = "\<lparr>page_width = 800, page_height = 600, ratio = 1, new_width = 800, new_height = 600, x_pos = 0, y_pos = 0\<rparr>"
  have h1: "pil_size ?img = Inr (800, 600)" by (simp add: undrawable_image_def)
  have h2: "compute_layout (use_a4 ?wk) 800 600 = Inr ?l"
    by (simp add: compute_layout_def fl_def example_worker_def)
  have h3: "rl_draw ?img = Some (LibraryError ''broken data stream'')" by (simp add: undrawable_image_def)
  have h4: "list_all (\<lambda>f. image_error ?wk f \<noteq> None) [unreadable_image ''b.png'']"
    by (simp add: image_error_def image_body_def unreadable_image_def)
  have h5: "image_error ?wk ?nxt = None"
    by (simp add: image_error_def image_body_def readable_image_def example_worker_def
        compute_layout_def)
  have h6: "images ?wk = [] @ ?img # [unreadable_image ''b.png'']" by (simp add: example_worker_def)
  note t = buffered_background[OF h1 h2 h3 h4, of new_canvas ?nxt "[]" None]
  show ?thesis using h1 h2 h3 h4 h5 h6 t by blast
qed

text \<open>
  Claim C2 on the code. A batch of one image that opens and whose drawing raises: the report
  has the one entry for the image and the run completes, but the document has one page, which
  holds only the background, where the claim requires no page.
\<close>

theorem stray_page:
  "document (run (example_worker [undrawable_image ''a.png'' 800 600] False) None) =
     Some [((800, 600), [SetFillColorRGB 1 1 1, Rect 0 0 800 600])]
   \<and> signals (run (example_worker [undrawable_image ''a.png'' 800 600] False) None) =
     [Progress 100, Finished [''a.png (Error: broken data stream)'']]"
proof -
  let ?img = "undrawable_image ''a.png'' 800 600"
  let ?wk = "example_worker [?img] False"
  let ?l = "\<lparr>page_width = 800, page_height = 600, ratio = 1, new_width = 800,
    new_height = 600, x_pos = 0, y_pos = 0\<rparr>"
  have l: "compute_layout (use_a4 ?wk) 800 600 = Inr ?l"
    by (simp add: compute_layout_def fl_def example_worker_def)
  have p: "pil_size ?img = Inr (800, 600)" and d: "rl_draw ?img = Some (LibraryError ''broken data stream'')"
    by (simp_all add: undrawable_image_def)
  have b: "image_body ?wk new_canvas ?img =
    (new_canvas\<lparr>pagesize := (800, 600),
        code := [SetFillColorRGB 1 1 1, Rect 0 0 800 600]\<rparr>, Some (LibraryError ''broken data stream''))"
    using image_body_buffered[OF p l d, of new_canvas]
    by (simp add: background_def example_worker_def new_canvas_def)
  have c: "loop_canvas ?wk new_canvas (images ?wk) =
    \<lparr>pagesize = (800, 600), code = [SetFillColorRGB 1 1 1, Rect 0 0 800 600], pages = []\<rparr>"
    using b by (simp add: loop_canvas_def example_worker_def new_canvas_def)
  have e: "image_error ?wk ?img = Some (LibraryError ''broken data stream'')"
    using b by (simp add: image_error_def)
  have r: "failure_report ?wk = [''a.png (Error: broken data stream)'']"
    using e basename_plain
    by (simp add: failure_report_def entries_def example_worker_def failure_entry_def undrawable_image_def)
  have n: "length (images ?wk) = 1" by (simp add: example_worker_def)
  have t: "trunc_percent (Suc 0) (Suc 0) = 100" using trunc_percent_full[of "Suc 0"] by simp
  show ?thesis
    by (simp add: run_eq c r n t save_def showPage_def)
qed

end
